theory Spec2Isabelle
  imports Complex_Main
begin

section \<open>Embedding of \<open>threeML/utils/binner.py\<close>\<close>

text \<open>
  Indices are naturals, counters are integers, and the finite numbers held in the arrays
  are reals. The reference sequence of a Rebinner is accumulated with the arithmetic of the
  reals. What numpy computes on the companion sequences and on the arrival times (sums,
  the quotient and the difference of the sum assertion, the element-wise addition and
  \<open>arange\<close>) depends on floating-point rounding: these operations are not defined here
  but are parameters of the model, collected in \<open>numpy_ops\<close>, so that nothing proved
  below assumes that they are exact unless it says so. Every \<open>raise\<close> and every failing
  \<open>assert\<close> of the source is a value of type \<open>error\<close>, returned on the left of a
  sum.
\<close>

datatype error = NotEnoughData | AssertionError | IndexError | ZeroDivisionError

text \<open>
  The operations of numpy that the source calls: \<open>np_sum xs\<close> is \<open>np.sum\<close> of the
  array or list \<open>xs\<close>, \<open>np_divide a b\<close> is \<open>a / b\<close> on numpy scalars for a non-zero
  \<open>b\<close>, \<open>np_subtract a b\<close> is \<open>a - b\<close>, \<open>np_add a b\<close> is \<open>a + b\<close> on the
  elements of an array, and \<open>np_arange start stop step\<close> is
  \<open>np.arange(start, stop, step)\<close>, which may raise.
\<close>

record numpy_ops =
  np_sum :: "real list \<Rightarrow> real"
  np_divide :: "real \<Rightarrow> real \<Rightarrow> real"
  np_subtract :: "real \<Rightarrow> real \<Rightarrow> real"
  np_add :: "real \<Rightarrow> real \<Rightarrow> real"
  np_arange :: "real \<Rightarrow> real \<Rightarrow> real \<Rightarrow> error + real list"

subsection \<open>Rebinner\<close>

record Rebinner =
  r_mask :: "bool list"
  r_starts :: "nat list"
  r_stops :: "nat list"
  r_min_value_per_bin :: real

text \<open>The local variables of the loop in \<open>Rebinner.__init__\<close>.\<close>

record loop_state =
  ls_starts :: "nat list"
  ls_stops :: "nat list"
  ls_n :: real
  ls_bin_open :: bool

definition loop_start :: loop_state where
  "loop_start = \<lparr>ls_starts = [], ls_stops = [], ls_n = 0, ls_bin_open = False\<rparr>"

text \<open>One iteration of \<open>for index, b in enumerate(vector_to_rebin_on)\<close>.\<close>

definition init_step :: "real \<Rightarrow> bool list \<Rightarrow> nat \<times> real \<Rightarrow> loop_state \<Rightarrow> loop_state" where
  "init_step min_value_per_bin msk ib s =
     (let index = fst ib; b = snd ib in
      if \<not> msk ! index then
        (if \<not> ls_bin_open s then s
         else s\<lparr>ls_stops := ls_stops s @ [index], ls_n := 0, ls_bin_open := False\<rparr>)
      else
        (let s1 = (if \<not> ls_bin_open s
                   then s\<lparr>ls_bin_open := True, ls_starts := ls_starts s @ [index], ls_n := 0\<rparr>
                   else s);
             s2 = s1\<lparr>ls_n := ls_n s1 + b\<rparr>
         in if ls_n s2 \<ge> min_value_per_bin
            then s2\<lparr>ls_stops := ls_stops s2 @ [index + 1], ls_n := 0, ls_bin_open := False\<rparr>
            else s2))"

definition init_loop :: "real \<Rightarrow> bool list \<Rightarrow> real list \<Rightarrow> loop_state" where
  "init_loop min_value_per_bin msk v = fold (init_step min_value_per_bin msk) (enumerate 0 v) loop_start"

text \<open>The part of \<open>__init__\<close> after the mask has been fixed: the loop, the closing of a
  bin left open, and the final assertion.\<close>

definition build_bins :: "real list \<Rightarrow> real \<Rightarrow> bool list \<Rightarrow> error + Rebinner" where
  "build_bins v min_value_per_bin msk =
     (let s = init_loop min_value_per_bin msk v;
          stops' = (if ls_bin_open s then ls_stops s @ [length v] else ls_stops s)
      in if length (ls_starts s) \<noteq> length stops' then Inl AssertionError
         else Inr \<lparr>r_mask = msk, r_starts = ls_starts s, r_stops = stops',
                   r_min_value_per_bin = min_value_per_bin\<rparr>)"

definition Rebinner_init :: "real list \<Rightarrow> real \<Rightarrow> bool list option \<Rightarrow> error + Rebinner" where
  "Rebinner_init vector_to_rebin_on min_value_per_bin mask_arg =
     (let total = sum_list vector_to_rebin_on in
      if total < min_value_per_bin then Inl NotEnoughData
      else (case mask_arg of
              Some msk \<Rightarrow>
                if length msk \<noteq> length vector_to_rebin_on then Inl AssertionError
                else build_bins vector_to_rebin_on min_value_per_bin msk
            | None \<Rightarrow>
                build_bins vector_to_rebin_on min_value_per_bin
                  (replicate (length vector_to_rebin_on) True)))"

definition n_bins :: "Rebinner \<Rightarrow> nat" where
  "n_bins r = length (r_starts r)"

text \<open>Python's \<open>xs[lo:hi]\<close> for non-negative bounds: out-of-range bounds are clipped.\<close>

definition slice :: "'a list \<Rightarrow> nat \<Rightarrow> nat \<Rightarrow> 'a list" where
  "slice xs lo hi = take (hi - lo) (drop lo xs)"

text \<open>Boolean-mask indexing \<open>vector_a[self._mask]\<close>.\<close>

definition masked :: "'a list \<Rightarrow> bool list \<Rightarrow> 'a list" where
  "masked xs msk = map fst (filter snd (zip xs msk))"

text \<open>The inner loop of \<open>rebin\<close>: one sum per pair of \<open>zip(self._starts, self._stops)\<close>.\<close>

definition rebinned_vector :: "numpy_ops \<Rightarrow> Rebinner \<Rightarrow> real list \<Rightarrow> real list" where
  "rebinned_vector ops r vec =
     map (\<lambda>(low_bound, hi_bound). np_sum ops (slice vec low_bound hi_bound))
         (zip (r_starts r) (r_stops r))"

text \<open>
  The expression asserted in \<open>rebin\<close>,
  \<open>abs(np.sum(rebinned_vector) / np.sum(vector_a[self._mask]) - 1) < 1e-4\<close>. With numpy
  scalars a division by zero does not raise: it gives \<open>nan\<close> or an infinity, for which
  the comparison is false. The absolute value and the comparison are exact on floating-point
  numbers, and the floating-point number written \<open>1e-4\<close> is the one next above
  \<open>1 / 10000\<close>, so that a floating-point number is below the one exactly when it is
  below the other.
\<close>

definition sum_check :: "numpy_ops \<Rightarrow> real \<Rightarrow> real \<Rightarrow> bool" where
  "sum_check ops rebinned_total masked_total =
     (if masked_total = 0 then False
      else \<bar>np_subtract ops (np_divide ops rebinned_total masked_total) 1\<bar> < 1 / 10000)"

fun rebin :: "numpy_ops \<Rightarrow> Rebinner \<Rightarrow> real list list \<Rightarrow> error + real list list" where
  "rebin ops r [] = Inr []"
| "rebin ops r (vec # vectors) =
     (if length vec \<noteq> length (r_mask r) then Inl AssertionError
      else let rv = rebinned_vector ops r vec in
           if \<not> sum_check ops (np_sum ops rv) (np_sum ops (masked vec (r_mask r)))
           then Inl AssertionError
           else (case rebin ops r vectors of
                   Inl e \<Rightarrow> Inl e
                 | Inr rest \<Rightarrow> Inr (rv # rest)))"

definition rebinned_errors :: "Rebinner \<Rightarrow> real list \<Rightarrow> real list" where
  "rebinned_errors r vec =
     map (\<lambda>(low_bound, hi_bound). sqrt (sum_list (map (\<lambda>y. y ^ 2) (slice vec low_bound hi_bound))))
         (zip (r_starts r) (r_stops r))"

fun rebin_errors :: "Rebinner \<Rightarrow> real list list \<Rightarrow> error + real list list" where
  "rebin_errors r [] = Inr []"
| "rebin_errors r (vec # vectors) =
     (if length vec \<noteq> length (r_mask r) then Inl AssertionError
      else (case rebin_errors r vectors of
              Inl e \<Rightarrow> Inl e
            | Inr rest \<Rightarrow> Inr (rebinned_errors r vec # rest)))"

subsection \<open>TemporalBinner\<close>

text \<open>The attributes \<open>_starts\<close> and \<open>_stops\<close> do not exist until a binning method has
  run: they are \<open>None\<close> until then.\<close>

record TemporalBinner =
  t_arrival_times :: "real list"
  t_starts :: "real list option"
  t_stops :: "real list option"

text \<open>\<open>TemporalBinner.__init__\<close> stores its argument and does nothing else.\<close>

definition TemporalBinner_init :: "real list \<Rightarrow> error + TemporalBinner" where
  "TemporalBinner_init arrival_times =
     Inr \<lparr>t_arrival_times = arrival_times, t_starts = None, t_stops = None\<rparr>"

text \<open>
  The arguments of \<open>bin_by_significance\<close>, together with the two methods of the class
  \<open>Significance\<close> of \<open>threeML.utils.stats_tools\<close> that it calls. That class is not part
  of the file under study: \<open>li_and_ma counts bkg\<close> stands for
  \<open>Significance(counts, bkg).li_and_ma()[0]\<close> and \<open>li_and_ma_gauss counts bkg err\<close> for
  \<open>Significance(counts, bkg).li_and_ma_equivalent_for_gaussian_background(err)[0]\<close>.
\<close>

record sig_args =
  li_and_ma :: "int \<Rightarrow> real \<Rightarrow> real"
  li_and_ma_gauss :: "int \<Rightarrow> real \<Rightarrow> real \<Rightarrow> real"
  background_getter :: "real \<Rightarrow> real \<Rightarrow> real"
  background_error_getter :: "(real \<Rightarrow> real \<Rightarrow> real) option"
  sigma_level :: real
  min_counts :: int

text \<open>The local variables of the loop in \<open>bin_by_significance\<close>.\<close>

record sig_state =
  ss_starts :: "real list"
  ss_stops :: "real list"
  ss_total_counts :: int
  ss_current_start :: real

definition sig_start :: "real \<Rightarrow> sig_state" where
  "sig_start t0 = \<lparr>ss_starts = [], ss_stops = [], ss_total_counts = 0, ss_current_start = t0\<rparr>"

text \<open>The significance computed in the \<open>else\<close> branch of the loop body.\<close>

definition window_sigma :: "sig_args \<Rightarrow> int \<Rightarrow> real \<Rightarrow> real \<Rightarrow> real" where
  "window_sigma a total_counts current_start time =
     (let bkg = background_getter a current_start time in
      case background_error_getter a of
        Some getter \<Rightarrow> li_and_ma_gauss a total_counts bkg (getter current_start time)
      | None \<Rightarrow> li_and_ma a total_counts bkg)"

text \<open>One iteration of \<open>for i, time in enumerate(self._arrival_times)\<close>; the progress bar
  only reports and is left out.\<close>

definition sig_step :: "sig_args \<Rightarrow> real \<Rightarrow> sig_state \<Rightarrow> sig_state" where
  "sig_step a time s =
     (let s1 = s\<lparr>ss_total_counts := ss_total_counts s + 1\<rparr> in
      if ss_total_counts s1 < min_counts a then s1
      else
        let sigma = window_sigma a (ss_total_counts s1) (ss_current_start s1) time in
        if sigma \<ge> sigma_level a
        then s1\<lparr>ss_stops := ss_stops s1 @ [time],
                ss_starts := ss_starts s1 @ [ss_current_start s1],
                ss_current_start := time,
                ss_total_counts := 0\<rparr>
        else s1)"

definition sig_scan :: "sig_args \<Rightarrow> real list \<Rightarrow> sig_state \<Rightarrow> sig_state" where
  "sig_scan a ts s = fold (sig_step a) ts s"

text \<open>
  A method that mutates the instance returns the exception it raised, if any, and the
  instance as it is left. \<open>bin_by_significance\<close> has already emptied the two lists when it
  reads \<open>self._arrival_times[0]\<close>.
\<close>

definition bin_by_significance :: "sig_args \<Rightarrow> TemporalBinner \<Rightarrow> error option \<times> TemporalBinner" where
  "bin_by_significance a tb =
     (let tb0 = tb\<lparr>t_starts := Some [], t_stops := Some []\<rparr> in
      case t_arrival_times tb of
        [] \<Rightarrow> (Some IndexError, tb0)
      | t0 # _ \<Rightarrow>
          let s = sig_scan a (t_arrival_times tb) (sig_start t0)
          in (None, tb\<lparr>t_starts := Some (ss_starts s), t_stops := Some (ss_stops s)\<rparr>))"

text \<open>\<open>bin_by_constanst\<close>: \<open>tmp = np.arange(first, last, dt)\<close>, then the starts are
  \<open>tmp\<close> and the stops are \<open>tmp + dt\<close>, element by element.\<close>

definition bin_by_constanst ::
  "numpy_ops \<Rightarrow> real \<Rightarrow> TemporalBinner \<Rightarrow> error option \<times> TemporalBinner" where
  "bin_by_constanst ops dt tb =
     (case t_arrival_times tb of
        [] \<Rightarrow> (Some IndexError, tb)
      | t0 # rest \<Rightarrow>
          (case np_arange ops t0 (last (t0 # rest)) dt of
             Inl e \<Rightarrow> (Some e, tb)
           | Inr tmp \<Rightarrow>
               (None, tb\<lparr>t_starts := Some tmp,
                         t_stops := Some (map (\<lambda>x. np_add ops x dt) tmp)\<rparr>)))"

subsection \<open>Notions used to state the properties\<close>

text \<open>The bins as they stand after the loop of \<open>__init__\<close> has handled the indices below
  \<open>k\<close>: the closed ones, and the open one, if any, taken up to \<open>k\<close>.\<close>

definition bins_at :: "loop_state \<Rightarrow> nat \<Rightarrow> (nat \<times> nat) list" where
  "bins_at s k = zip (ls_starts s) (if ls_bin_open s then ls_stops s @ [k] else ls_stops s)"

text \<open>
  The values that \<open>numpy.arange(start, stop, step)\<close> is documented to return for a
  non-zero step, computed without rounding: \<open>start + i * step\<close> for
  \<open>0 \<le> i < ceil((stop - start) / step)\<close>.
\<close>

definition arange_length :: "real \<Rightarrow> real \<Rightarrow> real \<Rightarrow> nat" where
  "arange_length start stop step = nat \<lceil>(stop - start) / step\<rceil>"

definition arange_values :: "real \<Rightarrow> real \<Rightarrow> real \<Rightarrow> real list" where
  "arange_values start stop step =
     map (\<lambda>i. start + real i * step) [0 ..< arange_length start stop step]"

text \<open>
  The operations computed without rounding. numpy's operations agree with them where every
  result is a floating-point number, as on the small whole numbers of the examples below.
\<close>

definition exact_ops :: numpy_ops where
  "exact_ops =
     \<lparr>np_sum = sum_list, np_divide = (\<lambda>a b. a / b), np_subtract = (\<lambda>a b. a - b),
      np_add = (\<lambda>a b. a + b),
      np_arange = (\<lambda>start stop step.
         if step = 0 then Inl ZeroDivisionError else Inr (arange_values start stop step))\<rparr>"


text \<open>
  The bins of \<open>bin_by_significance\<close> in the words of its description, as pairs: scanning
  the arrival times with a window start and a count, a time at which the count has reached
  \<open>min_counts\<close> and the significance of the window reaches \<open>sigma_level\<close> closes the
  bin from the window start to that time, and the scan goes on from that time with the count
  at 0; any other time only adds to the count; at the end of the arrival times nothing is
  closed.
\<close>

fun spec_significance_bins :: "sig_args \<Rightarrow> real \<Rightarrow> int \<Rightarrow> real list \<Rightarrow> (real \<times> real) list" where
  "spec_significance_bins a current_start total_counts [] = []"
| "spec_significance_bins a current_start total_counts (time # ts) =
     (if total_counts + 1 < min_counts a
      then spec_significance_bins a current_start (total_counts + 1) ts
      else if window_sigma a (total_counts + 1) current_start time \<ge> sigma_level a
      then (current_start, time) # spec_significance_bins a time 0 ts
      else spec_significance_bins a current_start (total_counts + 1) ts)"

text \<open>The significance is computed for the window ending at \<open>time\<close> and reaches the level.\<close>

definition reaches :: "sig_args \<Rightarrow> sig_state \<Rightarrow> real \<Rightarrow> bool" where
  "reaches a s time =
     (\<not> ss_total_counts s + 1 < min_counts a \<and>
      window_sigma a (ss_total_counts s + 1) (ss_current_start s) time \<ge> sigma_level a)"

text \<open>No arrival time of \<open>ts\<close>, scanned from state \<open>s\<close>, reaches the level.\<close>

fun never_reaches :: "sig_args \<Rightarrow> sig_state \<Rightarrow> real list \<Rightarrow> bool" where
  "never_reaches a s [] = True"
| "never_reaches a s (time # ts) = (\<not> reaches a s time \<and> never_reaches a (sig_step a time s) ts)"

text \<open>The bins \<open>bs\<close> are non-empty intervals below \<open>k\<close> that hold masked-true indices only,
  are in order and do not overlap, and hold every masked-true index below \<open>k\<close>.\<close>

definition good_bins :: "bool list \<Rightarrow> nat \<Rightarrow> (nat \<times> nat) list \<Rightarrow> bool" where
  "good_bins msk k bs =
     ((\<forall>p \<in> set bs. fst p < snd p \<and> snd p \<le> k \<and> (\<forall>j. fst p \<le> j \<and> j < snd p \<longrightarrow> msk ! j)) \<and>
      sorted_wrt (\<lambda>p q. snd p \<le> fst q) bs \<and>
      (\<forall>j<k. msk ! j \<longrightarrow> (\<exists>p \<in> set bs. fst p \<le> j \<and> j < snd p)))"


text \<open>What the loop of \<open>__init__\<close> keeps true of the accumulator and the closed bins: a
  closed bin reached the threshold or was closed by a masked-out element, and \<open>n\<close> is the
  total of the open bin.\<close>

definition thr_inv :: "real \<Rightarrow> bool list \<Rightarrow> real list \<Rightarrow> loop_state \<Rightarrow> bool" where
  "thr_inv m msk v s =
     ((\<forall>p \<in> set (zip (ls_starts s) (ls_stops s)).
         snd p \<le> length v \<and>
         (m \<le> sum_list (slice v (fst p) (snd p)) \<or> (snd p < length v \<and> \<not> msk ! snd p))) \<and>
      (ls_bin_open s \<longrightarrow>
         ls_starts s \<noteq> [] \<and> last (ls_starts s) \<le> length v \<and>
         ls_n s = sum_list (slice v (last (ls_starts s)) (length v))))"

section \<open>Evaluation of the bin construction on the documented examples\<close>

lemma init_loop_unmasked_example:
  "init_loop 2 [True, True, True, True, True, True] [1, 1, 1, 1, 1, 1] =
     \<lparr>ls_starts = [0, 2, 4], ls_stops = [2, 4, 6], ls_n = 0, ls_bin_open = False\<rparr>"
  by (simp add: init_loop_def loop_start_def init_step_def enumerate_eq_zip upt_rec
      numeral_eq_Suc nth_Cons')

lemma init_loop_masked_example:
  "init_loop 2 [True, True, False, True, True, True] [1, 1, 1, 1, 1, 1] =
     \<lparr>ls_starts = [0, 3, 5], ls_stops = [2, 5], ls_n = 1, ls_bin_open = True\<rparr>"
  by (simp add: init_loop_def loop_start_def init_step_def enumerate_eq_zip upt_rec
      numeral_eq_Suc nth_Cons')

section \<open>Invariants of the bin construction\<close>

lemma init_loop_snoc:
  "init_loop m msk (v @ [b]) = init_step m msk (length v, b) (init_loop m msk v)"
  by (simp add: init_loop_def enumerate_append_eq)

lemma init_loop_Nil: "init_loop m msk [] = loop_start"
  by (simp add: init_loop_def)

lemma init_loop_lengths:
  "length (ls_starts (init_loop m msk v)) =
     length (ls_stops (init_loop m msk v)) + (if ls_bin_open (init_loop m msk v) then 1 else 0)"
proof (induction v rule: rev_induct)
  case Nil
  show ?case by (simp add: init_loop_Nil loop_start_def)
next
  case (snoc b v)
  then show ?case
    by (simp add: init_loop_snoc init_step_def Let_def)
qed

lemma zip_open:
  assumes "length xs = Suc (length ys)"
  shows "zip xs (ys @ [k]) = zip (butlast xs) ys @ [(last xs, k)]"
proof -
  from assms have ne: "xs \<noteq> []" by auto
  then have "xs = butlast xs @ [last xs]" by simp
  then have "zip xs (ys @ [k]) = zip (butlast xs @ [last xs]) (ys @ [k])" by simp
  also have "\<dots> = zip (butlast xs) ys @ [(last xs, k)]"
    using assms by (subst zip_append) auto
  finally show ?thesis .
qed

lemma init_step_bins:
  assumes len: "length (ls_starts s) = length (ls_stops s) + (if ls_bin_open s then 1 else 0)"
  shows "(\<not> msk ! k \<and> bins_at (init_step m msk (k, b) s) (Suc k) = bins_at s k) \<or>
         (msk ! k \<and> \<not> ls_bin_open s \<and> bins_at (init_step m msk (k, b) s) (Suc k) = bins_at s k @ [(k, Suc k)]) \<or>
         (msk ! k \<and> ls_bin_open s \<and>
            (\<exists>bs a. bins_at s k = bs @ [(a, k)] \<and> bins_at (init_step m msk (k, b) s) (Suc k) = bs @ [(a, Suc k)]))"
proof (cases "msk ! k")
  case False
  then show ?thesis using len
    by (simp add: init_step_def bins_at_def)
next
  case True
  show ?thesis
  proof (cases "ls_bin_open s")
    case False
    with True len show ?thesis
      by (simp add: init_step_def bins_at_def Let_def)
  next
    case op: True
    with len have l: "length (ls_starts s) = Suc (length (ls_stops s))" by simp
    have "bins_at s k = zip (butlast (ls_starts s)) (ls_stops s) @ [(last (ls_starts s), k)]"
      using op l by (simp add: bins_at_def zip_open)
    moreover have "bins_at (init_step m msk (k, b) s) (Suc k)
        = zip (butlast (ls_starts s)) (ls_stops s) @ [(last (ls_starts s), Suc k)]"
      using op l True by (simp add: init_step_def bins_at_def Let_def zip_open)
    ultimately show ?thesis using True op by blast
  qed
qed

lemma good_bins_skip: "good_bins msk k bs \<Longrightarrow> \<not> msk ! k \<Longrightarrow> good_bins msk (Suc k) bs"
  unfolding good_bins_def
  by (metis le_Suc_eq less_Suc_eq)

lemma good_bins_open: "good_bins msk k bs \<Longrightarrow> msk ! k \<Longrightarrow> good_bins msk (Suc k) (bs @ [(k, Suc k)])"
  unfolding good_bins_def
  apply (intro conjI)
    apply (auto simp: sorted_wrt_append less_Suc_eq le_Suc_eq)
  done

lemma good_bins_extend:
  "good_bins msk k (bs @ [(a, k)]) \<Longrightarrow> msk ! k \<Longrightarrow> good_bins msk (Suc k) (bs @ [(a, Suc k)])"
  unfolding good_bins_def
  apply (intro conjI)
    apply (auto simp: sorted_wrt_append less_Suc_eq le_Suc_eq)
  done

lemma init_loop_snoc_bins:
  "(\<not> msk ! length v \<and>
      bins_at (init_loop m msk (v @ [b])) (Suc (length v)) = bins_at (init_loop m msk v) (length v)) \<or>
   (msk ! length v \<and> \<not> ls_bin_open (init_loop m msk v) \<and>
      bins_at (init_loop m msk (v @ [b])) (Suc (length v)) =
        bins_at (init_loop m msk v) (length v) @ [(length v, Suc (length v))]) \<or>
   (msk ! length v \<and> ls_bin_open (init_loop m msk v) \<and>
      (\<exists>bs a. bins_at (init_loop m msk v) (length v) = bs @ [(a, length v)] \<and>
              bins_at (init_loop m msk (v @ [b])) (Suc (length v)) = bs @ [(a, Suc (length v))]))"
  unfolding init_loop_snoc by (rule init_step_bins [OF init_loop_lengths])

lemma init_loop_good: "good_bins msk (length v) (bins_at (init_loop m msk v) (length v))"
proof (induction v rule: rev_induct)
  case Nil
  show ?case by (simp add: init_loop_Nil loop_start_def bins_at_def good_bins_def)
next
  case (snoc b v)
  from init_loop_snoc_bins [of msk v m b]
  show ?case
    using snoc good_bins_skip good_bins_open good_bins_extend
    by auto
qed






lemma slice_append_le: "hi \<le> length v \<Longrightarrow> slice (v @ w) lo hi = slice v lo hi"
  by (simp add: slice_def)

lemma slice_snoc_last: "a \<le> length v \<Longrightarrow> slice (v @ [b]) a (Suc (length v)) = slice v a (length v) @ [b]"
  by (simp add: slice_def Suc_diff_le)

lemma zip_snoc_left: "length xs = length ys \<Longrightarrow> zip (xs @ [x]) ys = zip xs ys"
  by (simp add: zip_append1)

lemma zip_longer:
  assumes "length xs = Suc (length ys)"
  shows "zip xs ys = zip (butlast xs) ys"
proof -
  from assms have "xs \<noteq> []" by auto
  then have "zip xs ys = zip (butlast xs @ [last xs]) ys" by simp
  also have "\<dots> = zip (butlast xs) ys"
    using assms by (intro zip_snoc_left) simp
  finally show ?thesis .
qed

lemma thr_old_bin:
  "snd p \<le> length v \<and> (m \<le> sum_list (slice v (fst p) (snd p)) \<or> (snd p < length v \<and> \<not> msk ! snd p))
   \<Longrightarrow> snd p \<le> length (v @ [b]) \<and>
       (m \<le> sum_list (slice (v @ [b]) (fst p) (snd p)) \<or> (snd p < length (v @ [b]) \<and> \<not> msk ! snd p))"
  by (auto simp: slice_append_le)

lemma init_step_thresholds:
  assumes len: "length (ls_starts s) = length (ls_stops s) + (if ls_bin_open s then 1 else 0)"
    and T: "thr_inv m msk v s"
  shows "thr_inv m msk (v @ [b]) (init_step m msk (length v, b) s)"
proof -
  let ?k = "length v"
  have old: "\<forall>p \<in> set (zip (ls_starts s) (ls_stops s)).
      snd p \<le> length (v @ [b]) \<and>
      (m \<le> sum_list (slice (v @ [b]) (fst p) (snd p)) \<or> (snd p < length (v @ [b]) \<and> \<not> msk ! snd p))"
    using T thr_old_bin unfolding thr_inv_def by blast
  show ?thesis
  proof (cases "ls_bin_open s")
    case False
    with len have l: "length (ls_starts s) = length (ls_stops s)" by simp
    show ?thesis
    proof (cases "msk ! ?k")
      case mf: False
      with False old show ?thesis by (simp add: thr_inv_def init_step_def)
    next
      case mt: True
      have single: "slice (v @ [b]) ?k (Suc ?k) = [b]" by (simp add: slice_def)
      show ?thesis using False mt old l single
        by (auto simp: thr_inv_def init_step_def Let_def zip_snoc_left)
    qed
  next
    case True
    with len have l: "length (ls_starts s) = Suc (length (ls_stops s))" by simp
    from True T have a: "ls_starts s \<noteq> []" "last (ls_starts s) \<le> ?k"
      "ls_n s = sum_list (slice v (last (ls_starts s)) ?k)"
      by (simp_all add: thr_inv_def)
    have old': "\<forall>p \<in> set (zip (butlast (ls_starts s)) (ls_stops s)).
      snd p \<le> length (v @ [b]) \<and>
      (m \<le> sum_list (slice (v @ [b]) (fst p) (snd p)) \<or> (snd p < length (v @ [b]) \<and> \<not> msk ! snd p))"
      using old zip_longer [OF l] by simp
    show ?thesis
    proof (cases "msk ! ?k")
      case mf: False
      show ?thesis using True mf old' l
        by (auto simp: thr_inv_def init_step_def zip_open)
    next
      case mt: True
      have ext: "sum_list (slice (v @ [b]) (last (ls_starts s)) (Suc ?k)) = ls_n s + b"
        using a by (simp add: slice_snoc_last)
      show ?thesis
      proof (cases "ls_n s + b \<ge> m")
        case ge: True
        show ?thesis using True mt old' l ext ge
          by (auto simp: thr_inv_def init_step_def Let_def zip_open)
      next
        case lt: False
        show ?thesis using True mt old l ext lt a
          by (auto simp: thr_inv_def init_step_def Let_def)
      qed
    qed
  qed
qed

lemma init_loop_thresholds: "thr_inv m msk v (init_loop m msk v)"
proof (induction v rule: rev_induct)
  case Nil
  show ?case by (simp add: init_loop_Nil loop_start_def thr_inv_def)
next
  case (snoc b v)
  show ?case unfolding init_loop_snoc
    by (rule init_step_thresholds [OF init_loop_lengths snoc])
qed

section \<open>Constructed instances and evaluation of the scans\<close>

lemma build_bins_Inr:
  "build_bins v m msk =
     Inr \<lparr>r_mask = msk, r_starts = ls_starts (init_loop m msk v),
          r_stops = (if ls_bin_open (init_loop m msk v)
                     then ls_stops (init_loop m msk v) @ [length v]
                     else ls_stops (init_loop m msk v)),
          r_min_value_per_bin = m\<rparr>"
  using init_loop_lengths [of m msk v]
  by (simp add: build_bins_def Let_def)

lemma build_bins_zip:
  assumes "build_bins v m msk = Inr r"
  shows "zip (r_starts r) (r_stops r) = bins_at (init_loop m msk v) (length v)"
    and "length (r_stops r) = length (r_starts r)"
    and "r_mask r = msk"
  using assms init_loop_lengths [of m msk v]
  by (auto simp: build_bins_Inr bins_at_def)

lemma build_bins_fields:
  assumes "build_bins v m msk = Inr r"
  shows "r_starts r = ls_starts (init_loop m msk v)"
    and "r_stops r = (if ls_bin_open (init_loop m msk v)
                      then ls_stops (init_loop m msk v) @ [length v]
                      else ls_stops (init_loop m msk v))"
  using assms by (auto simp: build_bins_Inr)

lemma Rebinner_init_Inr:
  assumes "Rebinner_init v m mask_arg = Inr r"
  shows "build_bins v m (r_mask r) = Inr r"
    and "length (r_mask r) = length v"
    and "m \<le> sum_list v"
    and "r_mask r = (case mask_arg of Some msk \<Rightarrow> msk | None \<Rightarrow> replicate (length v) True)"
  using assms
  by (auto simp: Rebinner_init_def Let_def build_bins_Inr split: if_splits option.splits)

lemma Rebinner_init_bins:
  assumes "Rebinner_init v m mask_arg = Inr r"
  shows "zip (r_starts r) (r_stops r) = bins_at (init_loop m (r_mask r) v) (length v)"
    and "length (r_stops r) = length (r_starts r)"
  using build_bins_zip [OF Rebinner_init_Inr(1) [OF assms]] by simp_all

lemma Rebinner_init_nth:
  assumes "Rebinner_init v m mask_arg = Inr r" and "i < n_bins r"
  shows "bins_at (init_loop m (r_mask r) v) (length v) ! i = (r_starts r ! i, r_stops r ! i)"
    and "i < length (bins_at (init_loop m (r_mask r) v) (length v))"
  using Rebinner_init_bins [OF assms(1)] assms(2)
  by (metis n_bins_def nth_zip, metis n_bins_def length_zip min.idem)

lemma slice_nth: "hi \<le> length xs \<Longrightarrow> slice xs lo hi = map ((!) xs) [lo..<hi]"
  by (auto simp: slice_def intro!: nth_equalityI)

lemma sum_list_slice:
  "hi \<le> length xs \<Longrightarrow> sum_list (map f (slice xs lo hi)) = (\<Sum>j = lo..<hi. f (xs ! j))"
  by (simp add: slice_nth interv_sum_list_conv_sum_set_nat comp_def)

lemma Rebinner_init_masked_example:
  "Rebinner_init [1, 1, 1, 1, 1, 1] 2 (Some [True, True, False, True, True, True]) =
     Inr \<lparr>r_mask = [True, True, False, True, True, True], r_starts = [0, 3, 5],
          r_stops = [2, 5, 6], r_min_value_per_bin = 2\<rparr>"
  by (simp add: Rebinner_init_def build_bins_def init_loop_masked_example)

lemma Rebinner_init_unmasked_example:
  "Rebinner_init [1, 1, 1, 1, 1, 1] 2 None =
     Inr \<lparr>r_mask = replicate 6 True, r_starts = [0, 2, 4],
          r_stops = [2, 4, 6], r_min_value_per_bin = 2\<rparr>"
proof -
  have "replicate 6 True = [True, True, True, True, True, True]"
    by (simp add: numeral_eq_Suc)
  then show ?thesis
    by (simp add: Rebinner_init_def build_bins_def init_loop_unmasked_example)
qed



lemma init_loop_gap_example:
  "init_loop 2 [True, False, True, True, True, True] [1, 1, 1, 1, 1, 1] =
     \<lparr>ls_starts = [0, 2, 4], ls_stops = [1, 4, 6], ls_n = 0, ls_bin_open = False\<rparr>"
  by (simp add: init_loop_def loop_start_def init_step_def enumerate_eq_zip upt_rec
      numeral_eq_Suc nth_Cons')

lemma Rebinner_init_gap_example:
  "Rebinner_init [1, 1, 1, 1, 1, 1] 2 (Some [True, False, True, True, True, True]) =
     Inr \<lparr>r_mask = [True, False, True, True, True, True], r_starts = [0, 2, 4],
          r_stops = [1, 4, 6], r_min_value_per_bin = 2\<rparr>"
  by (simp add: Rebinner_init_def build_bins_def init_loop_gap_example)

lemma sig_scan_append: "sig_scan a (ts @ us) s = sig_scan a us (sig_scan a ts s)"
  by (simp add: sig_scan_def)

lemma sig_step_reaches:
  "reaches a s time \<Longrightarrow>
   sig_step a time s =
     s\<lparr>ss_stops := ss_stops s @ [time], ss_starts := ss_starts s @ [ss_current_start s],
       ss_current_start := time, ss_total_counts := 0\<rparr>"
  by (simp add: reaches_def sig_step_def Let_def)

lemma sig_step_not_reaches:
  "\<not> reaches a s time \<Longrightarrow>
   ss_starts (sig_step a time s) = ss_starts s \<and> ss_stops (sig_step a time s) = ss_stops s"
  by (auto simp: reaches_def sig_step_def Let_def)

lemma sig_scan_never_reaches:
  "never_reaches a s us \<Longrightarrow>
   ss_starts (sig_scan a us s) = ss_starts s \<and> ss_stops (sig_scan a us s) = ss_stops s"
proof (induction us arbitrary: s)
  case Nil
  show ?case by (simp add: sig_scan_def)
next
  case (Cons t us)
  then have "never_reaches a (sig_step a t s) us" and "\<not> reaches a s t" by simp_all
  with Cons.IH [of "sig_step a t s"] sig_step_not_reaches [of a s t]
  show ?case by (simp add: sig_scan_def)
qed

lemma sig_scan_spec:
  "ss_starts (sig_scan a ts s) =
     ss_starts s @ map fst (spec_significance_bins a (ss_current_start s) (ss_total_counts s) ts) \<and>
   ss_stops (sig_scan a ts s) =
     ss_stops s @ map snd (spec_significance_bins a (ss_current_start s) (ss_total_counts s) ts)"
proof (induction ts arbitrary: s)
  case Nil
  show ?case by (simp add: sig_scan_def)
next
  case (Cons t ts)
  have unfold: "sig_scan a (t # ts) s = sig_scan a ts (sig_step a t s)"
    by (simp add: sig_scan_def)
  show ?case
    unfolding unfold using Cons.IH [of "sig_step a t s"]
    by (simp add: sig_step_def Let_def)
qed


section \<open>Properties of the Rebinner\<close>

text \<open>
  Claim C4. For the reference sequence \<open>[1,1,1,1,1,1]\<close> and threshold \<open>2\<close>: with
  no mask the bins are \<open>[0,2), [2,4), [4,6)\<close> and \<open>n_bins\<close> is 3; with the mask
  \<open>[T,T,F,T,T,T]\<close> the bins are \<open>[0,2), [3,5), [5,6)\<close>, the last one being below
  the threshold.
\<close>

theorem documented_examples:
  "Rebinner_init [1, 1, 1, 1, 1, 1] 2 None =
     Inr \<lparr>r_mask = replicate 6 True, r_starts = [0, 2, 4], r_stops = [2, 4, 6],
          r_min_value_per_bin = 2\<rparr> \<and>
   n_bins \<lparr>r_mask = replicate 6 True, r_starts = [0, 2, 4], r_stops = [2, 4, 6],
          r_min_value_per_bin = 2\<rparr> = 3 \<and>
   Rebinner_init [1, 1, 1, 1, 1, 1] 2 (Some [True, True, False, True, True, True]) =
     Inr \<lparr>r_mask = [True, True, False, True, True, True], r_starts = [0, 3, 5],
          r_stops = [2, 5, 6], r_min_value_per_bin = 2\<rparr> \<and>
   sum_list (slice [1, 1, 1, 1, 1, 1 :: real] 5 6) < 2"
  by (simp add: Rebinner_init_unmasked_example Rebinner_init_masked_example n_bins_def slice_def)

text \<open>
  Claim C5. Construction raises \<open>NotEnoughData\<close> exactly when the total of the reference
  sequence is strictly below \<open>min_value_per_bin\<close>, whatever the mask argument is (also
  one of the wrong length): the test comes before the mask is looked at, and no instance is
  produced.
\<close>

theorem NotEnoughData_iff:
  "Rebinner_init v m mask_arg = Inl NotEnoughData \<longleftrightarrow> sum_list v < m"
  by (simp add: Rebinner_init_def Let_def build_bins_Inr split: option.splits)

theorem NotEnoughData_iff_witness:
  "sum_list [1, 1 :: real] < 5 \<and> Rebinner_init [1, 1] 5 (Some [True]) = Inl NotEnoughData"
  using NotEnoughData_iff [of "[1, 1]" 5 "Some [True]"] by simp

text \<open>
  Claim C3. After a successful construction there are as many stops as starts; every bin
  \<open>[start_i, stop_i)\<close> is non-empty, ends within the reference sequence and holds
  masked-true indices only; the bins are in order and do not overlap; and every masked-true
  index of the reference sequence lies in exactly one bin.
\<close>

theorem bins_cover_mask:
  assumes "Rebinner_init v m mask_arg = Inr r"
  shows "length (r_stops r) = n_bins r \<and>
         (\<forall>i<n_bins r. r_starts r ! i < r_stops r ! i \<and> r_stops r ! i \<le> length v \<and>
              (\<forall>j. r_starts r ! i \<le> j \<and> j < r_stops r ! i \<longrightarrow> r_mask r ! j)) \<and>
         (\<forall>i j. i < j \<and> j < n_bins r \<longrightarrow> r_stops r ! i \<le> r_starts r ! j) \<and>
         (\<forall>j<length v. r_mask r ! j \<longrightarrow>
              (\<exists>!i. i < n_bins r \<and> r_starts r ! i \<le> j \<and> j < r_stops r ! i))"
proof -
  let ?bs = "bins_at (init_loop m (r_mask r) v) (length v)"
  have zip: "zip (r_starts r) (r_stops r) = ?bs" and len: "length (r_stops r) = length (r_starts r)"
    using Rebinner_init_bins [OF assms] by simp_all
  have lbs: "length ?bs = n_bins r"
    using zip len by (metis length_zip min.idem n_bins_def)
  have nth: "?bs ! i = (r_starts r ! i, r_stops r ! i)" if "i < n_bins r" for i
    using Rebinner_init_nth(1) [OF assms that] .
  have good: "good_bins (r_mask r) (length v) ?bs" by (rule init_loop_good)
  have inside: "r_starts r ! i < r_stops r ! i \<and> r_stops r ! i \<le> length v \<and>
      (\<forall>j. r_starts r ! i \<le> j \<and> j < r_stops r ! i \<longrightarrow> r_mask r ! j)" if "i < n_bins r" for i
  proof -
    from that lbs have "?bs ! i \<in> set ?bs" by simp
    with good show ?thesis unfolding good_bins_def nth [OF that] by fastforce
  qed
  have ordered: "r_stops r ! i \<le> r_starts r ! j" if "i < j" "j < n_bins r" for i j
  proof -
    from good have "sorted_wrt (\<lambda>p q. snd p \<le> fst q) ?bs" by (simp add: good_bins_def)
    then have "snd (?bs ! i) \<le> fst (?bs ! j)"
      using that lbs by (simp add: sorted_wrt_iff_nth_less)
    then show ?thesis using that nth by simp
  qed
  have covered: "\<exists>!i. i < n_bins r \<and> r_starts r ! i \<le> j \<and> j < r_stops r ! i"
    if "j < length v" "r_mask r ! j" for j
  proof -
    from good that obtain p where p: "p \<in> set ?bs" "fst p \<le> j" "j < snd p"
      unfolding good_bins_def by blast
    then obtain i where i: "i < n_bins r" "?bs ! i = p"
      using lbs by (metis in_set_conv_nth)
    then have ex: "i < n_bins r \<and> r_starts r ! i \<le> j \<and> j < r_stops r ! i"
      using p nth by auto
    have uniq: "i' = i" if "i' < n_bins r \<and> r_starts r ! i' \<le> j \<and> j < r_stops r ! i'" for i'
    proof (rule ccontr)
      assume "i' \<noteq> i"
      then consider "i' < i" | "i < i'" by linarith
      then show False
      proof cases
        case 1
        from ordered [OF 1 i(1)] that ex show False by linarith
      next
        case 2
        from ordered [OF 2] that ex show False by linarith
      qed
    qed
    from ex uniq show ?thesis by blast
  qed
  from len inside ordered covered show ?thesis
    by (simp add: n_bins_def)
qed

theorem bins_cover_mask_witness:
  "Rebinner_init [1, 1, 1, 1, 1, 1] 2 (Some [True, True, False, True, True, True]) =
     Inr \<lparr>r_mask = [True, True, False, True, True, True], r_starts = [0, 3, 5],
          r_stops = [2, 5, 6], r_min_value_per_bin = 2\<rparr> \<and>
   length (r_stops \<lparr>r_mask = [True, True, False, True, True, True], r_starts = [0, 3, 5],
          r_stops = [2, 5, 6], r_min_value_per_bin = 2\<rparr>) =
   n_bins \<lparr>r_mask = [True, True, False, True, True, True], r_starts = [0, 3, 5],
          r_stops = [2, 5, 6], r_min_value_per_bin = 2\<rparr>"
  using Rebinner_init_masked_example bins_cover_mask [OF Rebinner_init_masked_example, THEN conjunct1]
  by simp

text \<open>
  Claim C2 fails as stated: with the reference sequence \<open>[1,1,1,1,1,1]\<close>, threshold
  \<open>2\<close> and mask \<open>[T,F,T,T,T,T]\<close> the construction succeeds with three bins,
  and the first bin \<open>[0,1)\<close>, which is not the last one, accumulates \<open>1 < 2\<close>.
\<close>

theorem bins_reach_threshold_counterexample:
  "Rebinner_init [1, 1, 1, 1, 1, 1] 2 (Some [True, False, True, True, True, True]) =
     Inr \<lparr>r_mask = [True, False, True, True, True, True], r_starts = [0, 2, 4],
          r_stops = [1, 4, 6], r_min_value_per_bin = 2\<rparr> \<and>
   n_bins \<lparr>r_mask = [True, False, True, True, True, True], r_starts = [0, 2, 4],
          r_stops = [1, 4, 6], r_min_value_per_bin = 2\<rparr> = 3 \<and>
   sum_list (slice [1, 1, 1, 1, 1, 1 :: real] 0 1) < 2"
  by (simp add: Rebinner_init_gap_example n_bins_def slice_def)

text \<open>
  Claim C2, amended. After a successful construction every bin accumulates at least
  \<open>min_value_per_bin\<close> over the reference sequence, unless it was closed by a masked-out
  element (its stop index is inside the sequence and masked false) or it is the last bin
  and ends at the end of the sequence.
\<close>

theorem bins_reach_threshold:
  assumes "Rebinner_init v m mask_arg = Inr r"
  shows "\<forall>i<n_bins r.
           m \<le> sum_list (slice v (r_starts r ! i) (r_stops r ! i)) \<or>
           (r_stops r ! i < length v \<and> \<not> r_mask r ! (r_stops r ! i)) \<or>
           (Suc i = n_bins r \<and> r_stops r ! i = length v)"
proof (intro allI impI)
  fix i assume i: "i < n_bins r"
  let ?s = "init_loop m (r_mask r) v"
  have b: "build_bins v m (r_mask r) = Inr r" by (rule Rebinner_init_Inr(1) [OF assms])
  have st: "r_starts r = ls_starts ?s"
    and sp: "r_stops r = (if ls_bin_open ?s then ls_stops ?s @ [length v] else ls_stops ?s)"
    using build_bins_fields [OF b] by simp_all
  have len: "length (ls_starts ?s) = length (ls_stops ?s) + (if ls_bin_open ?s then 1 else 0)"
    by (rule init_loop_lengths)
  have T: "thr_inv m (r_mask r) v ?s" by (rule init_loop_thresholds)
  show "m \<le> sum_list (slice v (r_starts r ! i) (r_stops r ! i)) \<or>
        (r_stops r ! i < length v \<and> \<not> r_mask r ! (r_stops r ! i)) \<or>
        (Suc i = n_bins r \<and> r_stops r ! i = length v)"
  proof (cases "i < length (ls_stops ?s)")
    case True
    then have "(r_starts r ! i, r_stops r ! i) \<in> set (zip (ls_starts ?s) (ls_stops ?s))"
      using st sp len i
      by (auto simp: n_bins_def nth_append in_set_zip intro!: exI [of _ i])
    with T show ?thesis unfolding thr_inv_def by fastforce
  next
    case False
    with i st len have op: "ls_bin_open ?s" and ie: "i = length (ls_stops ?s)"
      by (auto simp: n_bins_def split: if_splits)
    then have "Suc i = n_bins r" "r_stops r ! i = length v"
      using st sp len by (simp_all add: n_bins_def)
    then show ?thesis by simp
  qed
qed

theorem bins_reach_threshold_witness:
  "Rebinner_init [1, 1, 1, 1, 1, 1] 2 (Some [True, False, True, True, True, True]) =
     Inr \<lparr>r_mask = [True, False, True, True, True, True], r_starts = [0, 2, 4],
          r_stops = [1, 4, 6], r_min_value_per_bin = 2\<rparr> \<and>
   \<not> 2 \<le> sum_list (slice [1, 1, 1, 1, 1, 1 :: real] 0 1) \<and>
   \<not> [True, False, True, True, True, True] ! 1 \<and>
   2 \<le> sum_list (slice [1, 1, 1, 1, 1, 1 :: real] 2 4)"
  using Rebinner_init_gap_example
    bins_reach_threshold [OF Rebinner_init_gap_example, THEN spec, of 1]
  by (simp add: slice_def n_bins_def)




text \<open>
  Claim C10. For a successfully constructed Rebinner and a companion sequence \<open>x\<close> of the
  reference length whose sum over the masked-true positions, as numpy computes it, is zero,
  \<open>rebin\<close> fails with the assertion error instead of returning aggregates.
\<close>

theorem rebin_zero_total_fails:
  assumes "Rebinner_init v m mask_arg = Inr r" and "length x = length v"
    and "np_sum ops (masked x (r_mask r)) = 0"
  shows "rebin ops r (x # vectors) = Inl AssertionError"
  using assms Rebinner_init_Inr(2) [OF assms(1)]
  by (simp add: sum_check_def)

theorem rebin_zero_total_fails_witness:
  "Rebinner_init [1, 1, 1, 1, 1, 1] 2 (Some [True, True, False, True, True, True]) =
     Inr \<lparr>r_mask = [True, True, False, True, True, True], r_starts = [0, 3, 5],
          r_stops = [2, 5, 6], r_min_value_per_bin = 2\<rparr> \<and>
   length [0, 0, 7, 0, 0, 0 :: real] = length [1, 1, 1, 1, 1, 1 :: real] \<and>
   np_sum exact_ops (masked [0, 0, 7, 0, 0, 0 :: real] [True, True, False, True, True, True]) = 0 \<and>
   rebin exact_ops \<lparr>r_mask = [True, True, False, True, True, True], r_starts = [0, 3, 5],
          r_stops = [2, 5, 6], r_min_value_per_bin = 2\<rparr> [[0, 0, 7, 0, 0, 0]] = Inl AssertionError"
proof -
  have l: "length [0, 0, 7, 0, 0, 0 :: real] = length [1, 1, 1, 1, 1, 1 :: real]" by simp
  have z: "np_sum exact_ops (masked [0, 0, 7, 0, 0, 0 :: real]
      (r_mask \<lparr>r_mask = [True, True, False, True, True, True], r_starts = [0, 3, 5],
          r_stops = [2, 5, 6], r_min_value_per_bin = 2\<rparr>)) = 0"
    by (simp add: masked_def exact_ops_def)
  show ?thesis
    using Rebinner_init_masked_example
      rebin_zero_total_fails [OF Rebinner_init_masked_example l z, of "[]"] z
    by simp
qed

text \<open>
  Claim C6. For a successfully constructed Rebinner and every companion sequence \<open>x\<close> of
  the reference length, \<open>rebin_errors\<close> returns, with no condition on any sum, one value
  per bin, the square root of the sum of the squares of \<open>x\<close> over \<open>[start_i, stop_i)\<close>.
\<close>

theorem rebin_errors_quadrature:
  assumes "Rebinner_init v m mask_arg = Inr r" and "length x = length v"
  shows "rebin_errors r [x] = Inr [rebinned_errors r x] \<and>
         length (rebinned_errors r x) = n_bins r \<and>
         (\<forall>i<n_bins r. rebinned_errors r x ! i =
              sqrt (\<Sum>j = r_starts r ! i ..< r_stops r ! i. (x ! j) ^ 2))"
proof -
  have len: "length (r_stops r) = length (r_starts r)"
    using Rebinner_init_bins(2) [OF assms(1)] .
  have lm: "length (r_mask r) = length v"
    using Rebinner_init_Inr(2) [OF assms(1)] .
  have a: "rebin_errors r [x] = Inr [rebinned_errors r x]"
    using lm assms(2) by simp
  have b: "length (rebinned_errors r x) = n_bins r"
    using len by (simp add: rebinned_errors_def n_bins_def)
  have c: "rebinned_errors r x ! i = sqrt (\<Sum>j = r_starts r ! i ..< r_stops r ! i. (x ! j) ^ 2)"
    if "i < n_bins r" for i
  proof -
    have "good_bins (r_mask r) (length v) (bins_at (init_loop m (r_mask r) v) (length v))"
      by (rule init_loop_good)
    moreover have "(r_starts r ! i, r_stops r ! i) \<in> set (bins_at (init_loop m (r_mask r) v) (length v))"
      using Rebinner_init_nth [OF assms(1) that] by (metis nth_mem)
    ultimately have "r_stops r ! i \<le> length x"
      using assms(2) unfolding good_bins_def by fastforce
    then have "sum_list (map (\<lambda>y. y ^ 2) (slice x (r_starts r ! i) (r_stops r ! i))) =
        (\<Sum>j = r_starts r ! i ..< r_stops r ! i. (x ! j) ^ 2)"
      by (rule sum_list_slice)
    then show ?thesis
      using that len by (simp add: rebinned_errors_def n_bins_def)
  qed
  from a b c show ?thesis by blast
qed

theorem rebin_errors_quadrature_witness:
  "Rebinner_init [1, 1, 1, 1, 1, 1] 2 (Some [True, True, False, True, True, True]) =
     Inr \<lparr>r_mask = [True, True, False, True, True, True], r_starts = [0, 3, 5],
          r_stops = [2, 5, 6], r_min_value_per_bin = 2\<rparr> \<and>
   length [3, 4, 0, 0, 0, 2 :: real] = length [1, 1, 1, 1, 1, 1 :: real] \<and>
   rebin_errors \<lparr>r_mask = [True, True, False, True, True, True], r_starts = [0, 3, 5],
          r_stops = [2, 5, 6], r_min_value_per_bin = 2\<rparr> [[3, 4, 0, 0, 0, 2]] = Inr [[5, 0, 2]]"
proof -
  have l: "length [3, 4, 0, 0, 0, 2 :: real] = length [1, 1, 1, 1, 1, 1 :: real]" by simp
  have s25: "sqrt 25 = 5" by (rule real_sqrt_unique) simp_all
  have s4: "sqrt 4 = 2" by (rule real_sqrt_unique) simp_all
  show ?thesis
    using Rebinner_init_masked_example
      rebin_errors_quadrature [OF Rebinner_init_masked_example l, THEN conjunct1]
    by (simp add: rebinned_errors_def slice_def s25 s4)
qed

section \<open>Properties of the TemporalBinner\<close>

text \<open>
  Claim C7 fails as stated: the construction of a TemporalBinner from the empty sequence
  succeeds.
\<close>

theorem TemporalBinner_init_empty_counterexample:
  "TemporalBinner_init [] = Inr \<lparr>t_arrival_times = [], t_starts = None, t_stops = None\<rparr>"
  by (simp add: TemporalBinner_init_def)

text \<open>
  Claim C7, amended. The construction of a TemporalBinner validates nothing: it succeeds for
  every arrival-time sequence, the empty one included, and stores it. An empty sequence
  fails later, with an index error, when \<open>bin_by_significance\<close> or
  \<open>bin_by_constanst\<close> reads the first arrival time.
\<close>

theorem TemporalBinner_init_no_validation:
  "TemporalBinner_init arrival_times =
     Inr \<lparr>t_arrival_times = arrival_times, t_starts = None, t_stops = None\<rparr> \<and>
   fst (bin_by_significance a \<lparr>t_arrival_times = [], t_starts = None, t_stops = None\<rparr>) =
     Some IndexError \<and>
   fst (bin_by_constanst ops dt \<lparr>t_arrival_times = [], t_starts = None, t_stops = None\<rparr>) =
     Some IndexError"
  by (simp add: TemporalBinner_init_def bin_by_significance_def bin_by_constanst_def)

text \<open>
  Claim C8. \<open>bin_by_significance\<close> returns exactly the bins of its description: scanning
  the arrival times from the first one, each time at which the significance is computed
  and reaches \<open>sigma_level\<close> closes the bin \<open>(current_start, time)\<close>, after which
  \<open>current_start\<close> is that time and \<open>total_counts\<close> is 0; no other bin is produced,
  none is closed at the end of the scan. In the loop, a step at such a time appends
  \<open>current_start\<close> to the starts and the time to the stops and resets the two variables;
  and when no arrival time of a final segment \<open>us\<close> reaches the level, the bins returned
  are those found before that segment.
\<close>

theorem significance_bins:
  "(t_arrival_times tb = t0 # rest \<longrightarrow>
      bin_by_significance a tb =
        (None, tb\<lparr>t_starts := Some (map fst (spec_significance_bins a t0 0 (t0 # rest))),
                  t_stops := Some (map snd (spec_significance_bins a t0 0 (t0 # rest)))\<rparr>)) \<and>
   (reaches a s time \<longrightarrow>
      sig_step a time s =
        s\<lparr>ss_stops := ss_stops s @ [time], ss_starts := ss_starts s @ [ss_current_start s],
          ss_current_start := time, ss_total_counts := 0\<rparr>) \<and>
   (t_arrival_times tb = ts @ us \<and> ts @ us \<noteq> [] \<and>
    never_reaches a (sig_scan a ts (sig_start (hd (ts @ us)))) us \<longrightarrow>
      bin_by_significance a tb =
        (None, tb\<lparr>t_starts := Some (ss_starts (sig_scan a ts (sig_start (hd (ts @ us))))),
                  t_stops := Some (ss_stops (sig_scan a ts (sig_start (hd (ts @ us)))))\<rparr>))"
proof (intro conjI impI)
  assume arr: "t_arrival_times tb = t0 # rest"
  from sig_scan_spec [of a "t0 # rest" "sig_start t0"]
  have "ss_starts (sig_scan a (t0 # rest) (sig_start t0)) =
          map fst (spec_significance_bins a t0 0 (t0 # rest))"
    and "ss_stops (sig_scan a (t0 # rest) (sig_start t0)) =
          map snd (spec_significance_bins a t0 0 (t0 # rest))"
    by (simp_all add: sig_start_def)
  then show "bin_by_significance a tb =
        (None, tb\<lparr>t_starts := Some (map fst (spec_significance_bins a t0 0 (t0 # rest))),
                  t_stops := Some (map snd (spec_significance_bins a t0 0 (t0 # rest)))\<rparr>)"
    using arr by (simp add: bin_by_significance_def Let_def)
next
  assume "reaches a s time"
  then show "sig_step a time s =
        s\<lparr>ss_stops := ss_stops s @ [time], ss_starts := ss_starts s @ [ss_current_start s],
          ss_current_start := time, ss_total_counts := 0\<rparr>"
    by (rule sig_step_reaches)
next
  let ?s0 = "sig_start (hd (ts @ us))"
  assume h: "t_arrival_times tb = ts @ us \<and> ts @ us \<noteq> [] \<and> never_reaches a (sig_scan a ts ?s0) us"
  then obtain t1 rest1 where c: "ts @ us = t1 # rest1" by (cases "ts @ us") auto
  have "sig_scan a (t_arrival_times tb) ?s0 = sig_scan a us (sig_scan a ts ?s0)"
    using h by (simp add: sig_scan_append)
  moreover have "ss_starts (sig_scan a us (sig_scan a ts ?s0)) = ss_starts (sig_scan a ts ?s0)"
    "ss_stops (sig_scan a us (sig_scan a ts ?s0)) = ss_stops (sig_scan a ts ?s0)"
    using sig_scan_never_reaches h by blast+
  ultimately show "bin_by_significance a tb =
        (None, tb\<lparr>t_starts := Some (ss_starts (sig_scan a ts ?s0)),
                  t_stops := Some (ss_stops (sig_scan a ts ?s0))\<rparr>)"
    using h c by (simp add: bin_by_significance_def Let_def)
qed

theorem significance_bins_witness:
  "reaches \<lparr>li_and_ma = (\<lambda>c b. real_of_int c - b), li_and_ma_gauss = (\<lambda>c b e. real_of_int c - b),
            background_getter = (\<lambda>t1 t2. 0), background_error_getter = None,
            sigma_level = 2, min_counts = 1\<rparr>
      \<lparr>ss_starts = [], ss_stops = [], ss_total_counts = 1, ss_current_start = 1\<rparr> 2 \<and>
   sig_step \<lparr>li_and_ma = (\<lambda>c b. real_of_int c - b), li_and_ma_gauss = (\<lambda>c b e. real_of_int c - b),
            background_getter = (\<lambda>t1 t2. 0), background_error_getter = None,
            sigma_level = 2, min_counts = 1\<rparr> 2
      \<lparr>ss_starts = [], ss_stops = [], ss_total_counts = 1, ss_current_start = 1\<rparr> =
      \<lparr>ss_starts = [1], ss_stops = [2], ss_total_counts = 0, ss_current_start = 2\<rparr> \<and>
   spec_significance_bins
      \<lparr>li_and_ma = (\<lambda>c b. real_of_int c - b), li_and_ma_gauss = (\<lambda>c b e. real_of_int c - b),
            background_getter = (\<lambda>t1 t2. 0), background_error_getter = None,
            sigma_level = 2, min_counts = 1\<rparr> 1 0 [1, 2, 3, 4, 5] = [(1, 2), (2, 4)] \<and>
   bin_by_significance
      \<lparr>li_and_ma = (\<lambda>c b. real_of_int c - b), li_and_ma_gauss = (\<lambda>c b e. real_of_int c - b),
            background_getter = (\<lambda>t1 t2. 0), background_error_getter = None,
            sigma_level = 2, min_counts = 1\<rparr>
      \<lparr>t_arrival_times = [1, 2, 3, 4, 5], t_starts = None, t_stops = None\<rparr> =
     (None, \<lparr>t_arrival_times = [1, 2, 3, 4, 5], t_starts = Some [1, 2], t_stops = Some [2, 4]\<rparr>)"
proof -
  let ?a = "\<lparr>li_and_ma = (\<lambda>c b. real_of_int c - b), li_and_ma_gauss = (\<lambda>c b e. real_of_int c - b),
            background_getter = (\<lambda>t1 t2. 0), background_error_getter = None,
            sigma_level = 2, min_counts = 1\<rparr>"
  let ?s = "\<lparr>ss_starts = [], ss_stops = [], ss_total_counts = 1, ss_current_start = 1\<rparr>"
  let ?tb = "\<lparr>t_arrival_times = [1, 2, 3, 4, 5], t_starts = None, t_stops = None\<rparr>"
  have r: "reaches ?a ?s 2" by (simp add: reaches_def window_sigma_def)
  have sp: "spec_significance_bins ?a 1 0 [1, 2, 3, 4, 5] = [(1, 2), (2, 4)]"
    by (simp add: window_sigma_def)
  have arr: "t_arrival_times ?tb = 1 # [2, 3, 4, 5]" by simp
  have sc: "sig_scan ?a [1, 2, 3, 4] (sig_start (hd ([1, 2, 3, 4] @ [5]))) =
      \<lparr>ss_starts = [1, 2], ss_stops = [2, 4], ss_total_counts = 0, ss_current_start = 4\<rparr>"
    by (simp add: sig_scan_def sig_start_def sig_step_def window_sigma_def)
  have h: "t_arrival_times ?tb = [1, 2, 3, 4] @ [5] \<and> [1, 2, 3, 4] @ [5] \<noteq> ([] :: real list) \<and>
      never_reaches ?a (sig_scan ?a [1, 2, 3, 4] (sig_start (hd ([1, 2, 3, 4] @ [5])))) [5]"
    unfolding sc by (simp add: reaches_def window_sigma_def)
  from significance_bins [of ?tb 1 "[2, 3, 4, 5]" ?a ?s 2 "[1, 2, 3, 4]" "[5]"] arr r h
  have "bin_by_significance ?a ?tb =
        (None, ?tb\<lparr>t_starts := Some (map fst (spec_significance_bins ?a 1 0 (1 # [2, 3, 4, 5]))),
                   t_stops := Some (map snd (spec_significance_bins ?a 1 0 (1 # [2, 3, 4, 5])))\<rparr>)"
    and "sig_step ?a 2 ?s = ?s\<lparr>ss_stops := ss_stops ?s @ [2],
          ss_starts := ss_starts ?s @ [ss_current_start ?s],
          ss_current_start := 2, ss_total_counts := 0\<rparr>"
    by blast+
  then show ?thesis using r sp by simp
qed




end
